theory Spec2Isabelle
  imports Complex_Main "HOL-Library.Word"
begin

section \<open>The go2cpp audio player (audio/internal/go2cpp/player\_js.go)\<close>

text \<open>
  The Player of the source is a struct guarded by one mutex with a condition variable; its
  methods talk to a JavaScript object (the sink handle) through \<^verbatim>\<open>syscall/js\<close>.
  The embedding is sequential: every method is a function from the player's state to the
  new state, and everything the method does to the outside world (locking, signalling,
  calls on the JavaScript object, starting the goroutine) is appended, in program order,
  to an event log kept in the state.

  \<^item> \<^verbatim>\<open>p.v\<close> is a \<^verbatim>\<open>js.Value\<close>: \<open>None\<close> is \<^verbatim>\<open>js.Undefined()\<close> (not truthy),
    \<open>Some h\<close> a live JavaScript object (truthy).
  \<^item> \<^verbatim>\<open>Value.Call\<close> on an undefined value panics in Go (``It panics if v has no method
    m''); a panic is the \<open>Inl\<close> branch of the result.
  \<^item> \<^verbatim>\<open>float64\<close> volumes are only stored and copied, never computed with; they are
    modelled as \<open>real\<close>.
  \<^item> The source reader and the sink's \<^verbatim>\<open>isWritable\<close> are external: the state holds
    the script of their future answers.
\<close>

subsection \<open>Data\<close>

type_synonym byte = "8 word"

datatype playerState = playerStatePaused | playerStatePlaying | playerStateClosed

text \<open>Go \<^verbatim>\<open>error\<close> values met by the player: \<^verbatim>\<open>io.EOF\<close> and any other error.\<close>

datatype goerror = EOF | ReadError string

datatype panic =
    ValueError string  \<comment> \<open>\<^verbatim>\<open>syscall/js\<close>: method called on a value that is not an object\<close>
  | SliceBounds nat nat  \<comment> \<open>\<^verbatim>\<open>buf[:n]\<close> with \<open>n\<close> beyond the capacity\<close>

text \<open>The JavaScript player object: its identity and its \<^verbatim>\<open>volume\<close> property.\<close>

record jsPlayer =
  ident :: nat
  jsvolume :: "real option"

datatype event =
    Lock | Unlock | Signal | Wait
  | SetFinalizerNil
  | ReleaseOnWritten
  | GoLoop  \<comment> \<open>\<^verbatim>\<open>go p.loop()\<close>\<close>
  | CreatePlayer nat  \<comment> \<open>\<^verbatim>\<open>context.v.Call("createPlayer", onWritten)\<close>, with the new object's identity\<close>
  | SetJSVolume nat real  \<comment> \<open>\<^verbatim>\<open>v.Set("volume", x)\<close>\<close>
  | CallPlay nat
  | CallPause nat
  | CallClose nat bool  \<comment> \<open>\<^verbatim>\<open>v.Call("close", b)\<close>\<close>
  | CallIsWritable nat bool  \<comment> \<open>\<^verbatim>\<open>v.Call("isWritable")\<close> and its answer\<close>
  | CallWrite nat "byte list" nat  \<comment> \<open>\<^verbatim>\<open>v.Call("write", dst, n)\<close>\<close>
  | CallUndefined string  \<comment> \<open>a method call attempted on \<^verbatim>\<open>js.Undefined()\<close>\<close>

record Player =
  v :: "jsPlayer option"
  state :: playerState
  volume :: real
  err :: "goerror option"
  src :: "(byte list \<times> goerror option) list"
    \<comment> \<open>the reader: what each future \<^verbatim>\<open>Read\<close> returns (the bytes placed in the buffer, the error)\<close>
  writable :: "bool list"
    \<comment> \<open>the sink: what each future \<^verbatim>\<open>isWritable\<close> poll answers\<close>
  fresh :: nat
    \<comment> \<open>identity of the next object \<^verbatim>\<open>createPlayer\<close> returns\<close>
  trace :: "event list"

definition emit :: "event \<Rightarrow> Player \<Rightarrow> Player" where
  "emit e p = p\<lparr>trace := trace p @ [e]\<rparr>"

text \<open>\<^verbatim>\<open>Context.NewPlayer\<close>: state is the zero value (paused), the handle undefined, volume 1.\<close>

definition NewPlayer :: "(byte list \<times> goerror option) list \<Rightarrow> bool list \<Rightarrow> Player" where
  "NewPlayer r ws =
     \<lparr>v = None, state = playerStatePaused, volume = 1, err = None,
      src = r, writable = ws, fresh = 0, trace = []\<rparr>"

subsection \<open>Transport operations\<close>

definition Pause :: "Player \<Rightarrow> Player" where
  "Pause p0 =
     (let p = emit Lock p0 in
      if state p = playerStateClosed then emit Unlock p
      else case v p of
        None \<Rightarrow> emit Unlock p
      | Some h \<Rightarrow>
          (let p = emit (CallPause (ident h)) p;
               p = p\<lparr>state := playerStatePaused\<rparr>;
               p = emit Signal p
           in emit Unlock p))"

text \<open>
  Modelled from the spec: the sink's \<^verbatim>\<open>createPlayer\<close> is an external collaborator
  (``create(completionCallback) \<rightarrow> handle''); it returns a new object, whose
  \<^verbatim>\<open>volume\<close> property is not set yet.
\<close>

definition createPlayer :: "Player \<Rightarrow> jsPlayer \<times> Player" where
  "createPlayer p =
     (\<lparr>ident = fresh p, jsvolume = None\<rparr>,
      (emit (CreatePlayer (fresh p)) p)\<lparr>fresh := Suc (fresh p)\<rparr>)"

definition Play :: "Player \<Rightarrow> Player" where
  "Play p0 =
     (let p = emit Lock p0 in
      if state p = playerStateClosed then emit Unlock p
      else
        (let (h, p) =
           (case v p of
              Some h \<Rightarrow> (h, p)
            | None \<Rightarrow>
                (let (h, p) = createPlayer p;
                     p = p\<lparr>v := Some h\<rparr>;
                     h = h\<lparr>jsvolume := Some (volume p)\<rparr>;
                     p = (emit (SetJSVolume (ident h) (volume p)) p)\<lparr>v := Some h\<rparr>;
                     p = emit GoLoop p
                 in (h, p)));
             p = emit (CallPlay (ident h)) p;
             p = p\<lparr>state := playerStatePlaying\<rparr>;
             p = emit Signal p
         in emit Unlock p))"

definition Reset :: "Player \<Rightarrow> Player" where
  "Reset p0 =
     (let p = emit Lock p0 in
      if state p = playerStateClosed then emit Unlock p
      else case v p of
        None \<Rightarrow> emit Unlock p
      | Some h \<Rightarrow>
          (let p = emit (CallClose (ident h) True) p;
               p = p\<lparr>v := None\<rparr>;
               p = emit Signal p
           in emit Unlock p))"

text \<open>\<^verbatim>\<open>Volume\<close> and \<^verbatim>\<open>SetVolume\<close> take no lock in the source.\<close>

definition Volume :: "Player \<Rightarrow> panic + real" where
  "Volume p =
     (case v p of
        None \<Rightarrow> Inr (volume p)
      | Some h \<Rightarrow>
          (case jsvolume h of
             None \<Rightarrow> Inl (ValueError ''Value.Float'')
           | Some x \<Rightarrow> Inr x))"

definition SetVolume :: "real \<Rightarrow> Player \<Rightarrow> Player" where
  "SetVolume x p =
     (case v p of
        None \<Rightarrow> p
      | Some h \<Rightarrow>
          (let p = (emit (SetJSVolume (ident h) x) p)\<lparr>v := Some (h\<lparr>jsvolume := Some x\<rparr>)\<rparr>
           in p\<lparr>volume := x\<rparr>))"

text \<open>
  The internal \<^verbatim>\<open>close(remove)\<close>. The call \<^verbatim>\<open>p.v.Call("close", false)\<close> is not guarded
  by \<^verbatim>\<open>p.v.Truthy()\<close>; the deferred unlock runs also when it panics.
\<close>

definition close :: "bool \<Rightarrow> Player \<Rightarrow> (panic \<times> Player) + (goerror option \<times> Player)" where
  "close remove p0 =
     (let p = emit Lock p0 in
      if state p = playerStateClosed then Inr (err p, emit Unlock p)
      else case v p of
        None \<Rightarrow> Inl (ValueError ''Value.Call'', emit Unlock (emit (CallUndefined ''close'') p))
      | Some h \<Rightarrow>
          (let p = emit (CallClose (ident h) False) p;
               p = p\<lparr>v := None\<rparr>;
               p = (if remove then emit ReleaseOnWritten (p\<lparr>state := playerStateClosed\<rparr>)
                    else p\<lparr>state := playerStatePaused\<rparr>);
               p = emit Signal p
           in Inr (err p, emit Unlock p)))"

definition Close :: "Player \<Rightarrow> (panic \<times> Player) + (goerror option \<times> Player)" where
  "Close p = close True (emit SetFinalizerNil p)"

definition setError :: "goerror option \<Rightarrow> Player \<Rightarrow> Player" where
  "setError e p0 =
     (let p = emit Lock p0;
          p = (if state p \<noteq> playerStateClosed then
                 (case v p of
                    Some h \<Rightarrow> (emit (CallClose (ident h) True) p)\<lparr>v := None\<rparr>
                  | None \<Rightarrow> p)
               else p);
          p = p\<lparr>err := e\<rparr>;
          p = p\<lparr>state := playerStateClosed\<rparr>;
          p = emit Signal p
      in emit Unlock p)"

subsection \<open>The streaming task\<close>

text \<open>
  The wait loop of \<^verbatim>\<open>waitUntilUnpaused\<close>, run with no other goroutine interleaved.
  \<^verbatim>\<open>cond.Wait()\<close> returns when the sink's completion callback signals; the next poll of
  \<^verbatim>\<open>isWritable\<close> takes the next scripted answer. While the player is paused with a handle,
  or when the sink never reports writable again (the script is exhausted), the wait does
  not return: the value is \<open>None\<close>.
\<close>

fun waitLoop :: "bool list \<Rightarrow> Player \<Rightarrow> Player option" where
  "waitLoop ws p =
     (case v p of
        None \<Rightarrow> Some (p\<lparr>writable := ws\<rparr>)
      | Some h \<Rightarrow>
          if state p = playerStatePaused then None
          else if state p = playerStatePlaying then
            (case ws of
               [] \<Rightarrow> None
             | w # ws' \<Rightarrow>
                 if \<not> w then waitLoop ws' (emit Wait (emit (CallIsWritable (ident h) w) p))
                 else Some ((emit (CallIsWritable (ident h) w) p)\<lparr>writable := ws'\<rparr>))
          else Some (p\<lparr>writable := ws\<rparr>))"

declare waitLoop.simps [simp del]

definition waitUntilUnpaused :: "Player \<Rightarrow> (bool \<times> Player) option" where
  "waitUntilUnpaused p0 =
     (case waitLoop (writable p0) (emit Lock p0) of
        None \<Rightarrow> None
      | Some p \<Rightarrow> Some (v p \<noteq> None \<and> state p = playerStatePlaying, emit Unlock p))"

text \<open>\<^verbatim>\<open>js.CopyBytesToJS(dst, src)\<close> copies \<open>min (len dst) (len src)\<close> bytes.\<close>

definition CopyBytesToJS :: "byte list \<Rightarrow> byte list \<Rightarrow> byte list" where
  "CopyBytesToJS dst s = (let n = min (length dst) (length s) in take n s @ drop n dst)"

definition write' :: "byte list \<Rightarrow> byte list \<Rightarrow> Player \<Rightarrow> byte list \<times> Player" where
  "write' dst s p0 =
     (let p = emit Lock p0 in
      if state p = playerStateClosed then (dst, emit Unlock p)
      else case v p of
        None \<Rightarrow> (dst, emit Unlock p)
      | Some h \<Rightarrow>
          (let dst = CopyBytesToJS dst s;
               p = emit (CallWrite (ident h) dst (length s)) p
           in (dst, emit Unlock p)))"

text \<open>
  \<^verbatim>\<open>p.src.Read(buf)\<close>: the next scripted answer; a reader with nothing more to say is at
  end of stream.
\<close>

definition Read :: "Player \<Rightarrow> (byte list \<times> goerror option) \<times> Player" where
  "Read p =
     (case src p of
        [] \<Rightarrow> (([], Some EOF), p)
      | r # rs \<Rightarrow> (r, p\<lparr>src := rs\<rparr>))"

definition bufsize :: nat where
  "bufsize = 4096"

text \<open>One iteration of the \<^verbatim>\<open>for\<close> loop of \<^verbatim>\<open>loop\<close>.\<close>

datatype outcome =
    Continue "byte list" Player  \<comment> \<open>next iteration, with the transfer buffer\<close>
  | Done Player  \<comment> \<open>the goroutine returned\<close>
  | Panicked panic Player
  | Blocked  \<comment> \<open>the goroutine waits forever\<close>

definition loopBody :: "byte list \<Rightarrow> Player \<Rightarrow> outcome" where
  "loopBody dst p0 =
     (case waitUntilUnpaused p0 of
        None \<Rightarrow> Blocked
      | Some (ok, p) \<Rightarrow>
          if \<not> ok then Done p
          else
            (case Read p of
               ((d, e), p) \<Rightarrow>
                 if e \<noteq> None \<and> e \<noteq> Some EOF then Done (setError e p)
                 else if 0 < length d \<and> bufsize < length d
                   then Panicked (SliceBounds (length d) bufsize) p
                 else
                   (case (if 0 < length d then write' dst d p else (dst, p)) of
                      (dst, p) \<Rightarrow>
                        if e = Some EOF then
                          (case close False p of
                             Inl (x, p) \<Rightarrow> Panicked x p
                           | Inr (_, p) \<Rightarrow> Done p)
                        else Continue dst p)))"

function loopFrom :: "byte list \<Rightarrow> Player \<Rightarrow> outcome" where
  "loopFrom dst p =
     (case loopBody dst p of
        Continue dst' p' \<Rightarrow> loopFrom dst' p'
      | r \<Rightarrow> r)"
  by pat_completeness auto
termination
proof (relation "measure (\<lambda>(dst, p). length (src p))")
  show "wf (measure (\<lambda>(dst, p). length (src p)))"
    by simp
next
  fix dst p dst' q
  assume c: "loopBody dst p = Continue dst' q"
  have wl: "waitLoop ws p' = Some q' \<Longrightarrow> src q' = src p'" for ws p' q'
  proof (induction ws p' arbitrary: q' rule: waitLoop.induct)
    case (1 ws p')
    from "1.prems" show ?case
      by (subst (asm) waitLoop.simps)
        (auto simp: emit_def split: option.splits if_splits list.splits dest: "1.IH")
  qed
  from c obtain p1 where w: "waitUntilUnpaused p = Some (True, p1)"
    by (auto simp: loopBody_def split: option.splits if_splits)
  then have s1: "src p1 = src p"
    by (auto simp: waitUntilUnpaused_def emit_def split: option.splits dest: wl)
  obtain d e p2 where r: "Read p1 = ((d, e), p2)"
    by (metis prod.exhaust)
  from c w r have e: "e = None"
    by (auto simp: loopBody_def split: if_splits prod.splits sum.splits)
  with r have s2: "length (src p2) < length (src p1)"
    by (auto simp: Read_def split: list.splits)
  from c w r e have "src q = src p2"
    by (auto simp: loopBody_def write'_def emit_def Let_def
        split: if_splits prod.splits option.splits)
  with s1 s2 show "((dst', q), (dst, p)) \<in> measure (\<lambda>(dst, p). length (src p))"
    by simp
qed

text \<open>
  \<^verbatim>\<open>loop\<close>: the buffer and the transfer array are allocated, then the loop runs. The
  function is the run of one task with nothing in between its steps: it is what the
  goroutine does when the player has no other streaming task alive and no transport
  operation is called meanwhile. \<^verbatim>\<open>go p.loop()\<close> in Play only logs \<open>GoLoop\<close>; a task left
  alive by an earlier Play (Reset does not stop it) is not part of the state.
\<close>

definition loop :: "Player \<Rightarrow> outcome" where
  "loop p = loopFrom (replicate bufsize 0) p"

subsection \<open>Sequences of operations and what the event log says\<close>

datatype op = OpPlay | OpPause | OpReset | OpClose | OpSetVolume real | OpSetError "goerror option"

fun applyOp :: "op \<Rightarrow> Player \<Rightarrow> (panic \<times> Player) + Player" where
  "applyOp OpPlay p = Inr (Play p)"
| "applyOp OpPause p = Inr (Pause p)"
| "applyOp OpReset p = Inr (Reset p)"
| "applyOp OpClose p = (case Close p of Inl x \<Rightarrow> Inl x | Inr (e, q) \<Rightarrow> Inr q)"
| "applyOp (OpSetVolume x) p = Inr (SetVolume x p)"
| "applyOp (OpSetError e) p = Inr (setError e p)"

text \<open>A panic ends the run, as it ends the program.\<close>

fun run :: "op list \<Rightarrow> Player \<Rightarrow> (panic \<times> Player) + Player" where
  "run [] p = Inr p"
| "run (x # xs) p = (case applyOp x p of Inl e \<Rightarrow> Inl e | Inr q \<Rightarrow> run xs q)"

fun isSetError :: "op \<Rightarrow> bool" where
  "isSetError (OpSetError e) = True"
| "isSetError _ = False"

fun isCreate :: "event \<Rightarrow> bool" where
  "isCreate (CreatePlayer h) = True"
| "isCreate _ = False"

fun isWrite :: "event \<Rightarrow> bool" where
  "isWrite (CallWrite h dst n) = True"
| "isWrite _ = False"

text \<open>The bytes one event hands to the sink object \<open>h\<close>: the first \<open>n\<close> bytes of the array.\<close>

fun bytesTo :: "nat \<Rightarrow> event \<Rightarrow> byte list" where
  "bytesTo h (CallWrite h' dst n) = (if h' = h then take n dst else [])"
| "bytesTo h _ = []"

definition writtenTo :: "nat \<Rightarrow> event list \<Rightarrow> byte list" where
  "writtenTo h es = concat (map (bytesTo h) es)"

text \<open>The events a step from \<open>p\<close> to \<open>q\<close> appended.\<close>

definition newEvents :: "Player \<Rightarrow> Player \<Rightarrow> event list" where
  "newEvents p q = drop (length (trace p)) (trace q)"

section \<open>Properties\<close>

subsection \<open>Frame lemmas\<close>

lemma emit_simps [simp]:
  "trace (emit e p) = trace p @ [e]"
  "v (emit e p) = v p"
  "state (emit e p) = state p"
  "volume (emit e p) = volume p"
  "err (emit e p) = err p"
  "src (emit e p) = src p"
  "writable (emit e p) = writable p"
  "fresh (emit e p) = fresh p"
  by (simp_all add: emit_def)

lemma newEvents_append [simp]: "trace q = trace p @ es \<Longrightarrow> newEvents p q = es"
  by (simp add: newEvents_def)

lemma writtenTo_simps [simp]:
  "writtenTo h [] = []"
  "writtenTo h (e # es) = bytesTo h e @ writtenTo h es"
  "writtenTo h (es @ es') = writtenTo h es @ writtenTo h es'"
  by (simp_all add: writtenTo_def)

lemma writtenTo_no_write: "\<forall>e\<in>set es. \<not> isWrite e \<Longrightarrow> writtenTo h es = []"
proof (induction es)
  case Nil
  show ?case by simp
next
  case (Cons e es)
  then show ?case by (cases e) simp_all
qed

lemma waitLoop_frame:
  "waitLoop ws p = Some q \<Longrightarrow>
     v q = v p \<and> state q = state p \<and> err q = err p \<and> src q = src p \<and> fresh q = fresh p
     \<and> volume q = volume p \<and> (\<exists>es. trace q = trace p @ es \<and> (\<forall>e\<in>set es. \<not> isWrite e))"
proof (induction ws p arbitrary: q rule: waitLoop.induct)
  case (1 ws p)
  show ?case
  proof (cases "v p")
    case None
    with "1.prems" show ?thesis
      by (subst (asm) waitLoop.simps) auto
  next
    case (Some h)
    show ?thesis
    proof (cases "state p = playerStatePlaying")
      case False
      with Some "1.prems" show ?thesis
        by (subst (asm) waitLoop.simps) (auto split: if_splits)
    next
      case True
      show ?thesis
      proof (cases ws)
        case Nil
        with Some True "1.prems" show ?thesis
          by (subst (asm) waitLoop.simps) simp
      next
        case (Cons w ws')
        show ?thesis
        proof (cases w)
          case True
          with Some \<open>state p = playerStatePlaying\<close> Cons "1.prems" show ?thesis
            by (subst (asm) waitLoop.simps) auto
        next
          case False
          with Some \<open>state p = playerStatePlaying\<close> Cons "1.prems"
          have r: "waitLoop ws' (emit Wait (emit (CallIsWritable (ident h) w) p)) = Some q"
            by (subst (asm) waitLoop.simps) simp
          have np: "state p \<noteq> playerStatePaused"
            using \<open>state p = playerStatePlaying\<close> by simp
          from "1.IH" [OF Some np \<open>state p = playerStatePlaying\<close> Cons _ r] False
          show ?thesis
            by auto
        qed
      qed
    qed
  qed
qed

lemma waitUntilUnpaused_frame:
  assumes "waitUntilUnpaused p = Some (ok, q)"
  shows "ok = (v p \<noteq> None \<and> state p = playerStatePlaying)"
    and "v q = v p" and "state q = state p" and "err q = err p" and "src q = src p"
    and "fresh q = fresh p" and "volume q = volume p"
    and "\<exists>es. trace q = trace p @ es \<and> (\<forall>e\<in>set es. \<not> isWrite e)"
proof -
  from assms obtain q' where w: "waitLoop (writable p) (emit Lock p) = Some q'"
    and q: "q = emit Unlock q'" and ok: "ok = (v q' \<noteq> None \<and> state q' = playerStatePlaying)"
    by (auto simp: waitUntilUnpaused_def split: option.splits)
  from waitLoop_frame [OF w] obtain es where
    f: "v q' = v p" "state q' = state p" "err q' = err p" "src q' = src p" "fresh q' = fresh p"
      "volume q' = volume p" "trace q' = trace p @ Lock # es" "\<forall>e\<in>set es. \<not> isWrite e"
    by auto
  from f q ok show "ok = (v p \<noteq> None \<and> state p = playerStatePlaying)"
    and "v q = v p" and "state q = state p" and "err q = err p" and "src q = src p"
    and "fresh q = fresh p" and "volume q = volume p"
    by simp_all
  from f q have "trace q = trace p @ (Lock # es @ [Unlock])" "\<forall>e\<in>set (Lock # es @ [Unlock]). \<not> isWrite e"
    by simp_all
  then show "\<exists>es. trace q = trace p @ es \<and> (\<forall>e\<in>set es. \<not> isWrite e)"
    by blast
qed

lemma waitLoop_playing:
  assumes "v p = Some h" and "state p = playerStatePlaying" and "True \<in> set ws"
  shows "\<exists>q. waitLoop ws p = Some q \<and> writable q = tl (dropWhile Not ws)"
  using assms
proof (induction ws arbitrary: p)
  case Nil
  then show ?case by simp
next
  case (Cons w ws)
  show ?case
  proof (cases w)
    case True
    with Cons.prems show ?thesis
      by (subst waitLoop.simps) simp
  next
    case False
    with Cons.prems have t: "True \<in> set ws"
      by auto
    have "\<exists>q. waitLoop ws (emit Wait (emit (CallIsWritable (ident h) w) p)) = Some q
       \<and> writable q = tl (dropWhile Not ws)"
      using Cons.prems(1,2) t by (intro Cons.IH) simp_all
    with False Cons.prems show ?thesis
      by (subst waitLoop.simps) simp
  qed
qed

lemma count_True_tl_dropWhile:
  "True \<in> set ws \<Longrightarrow> Suc (count_list (tl (dropWhile Not ws)) True) = count_list ws True"
  by (induction ws) auto

lemma waitUntilUnpaused_playing:
  assumes "v p = Some h" and "state p = playerStatePlaying" and "True \<in> set (writable p)"
  shows "\<exists>q. waitUntilUnpaused p = Some (True, q)
     \<and> Suc (count_list (writable q) True) = count_list (writable p) True"
proof -
  from waitLoop_playing [of "emit Lock p" h "writable p"] assms obtain q
    where q: "waitLoop (writable p) (emit Lock p) = Some q"
      "writable q = tl (dropWhile Not (writable p))"
    by auto
  from waitLoop_frame [OF q(1)] assms have "v q \<noteq> None" "state q = playerStatePlaying"
    by simp_all
  with q count_True_tl_dropWhile [OF assms(3)] show ?thesis
    by (simp add: waitUntilUnpaused_def)
qed

subsection \<open>Closed is terminal\<close>

lemma applyOp_closed:
  assumes "state p = playerStateClosed"
  shows "\<exists>q. applyOp x p = Inr q \<and> state q = playerStateClosed
    \<and> map_option ident (v q) = map_option ident (v p) \<and> fresh q = fresh p
    \<and> filter isCreate (trace q) = filter isCreate (trace p)
    \<and> (\<not> isSetError x \<longrightarrow> err q = err p)"
  using assms
  by (cases x)
    (auto simp: Play_def Pause_def Reset_def Close_def close_def SetVolume_def setError_def Let_def
      split: option.splits)

text \<open>
  Claim C1. Once \<open>state\<close> is \<open>playerStateClosed\<close>, every sequence of Play, Pause, Reset,
  Close, SetVolume and setError runs without a panic and leaves \<open>state\<close> closed; the
  handle field keeps the identity it had, no \<^verbatim>\<open>createPlayer\<close> call is added to the log
  and no object identity is consumed: no handle is allocated afterwards.
\<close>

theorem closed_is_terminal:
  assumes "state p = playerStateClosed"
  shows "\<exists>q. run ops p = Inr q \<and> state q = playerStateClosed
    \<and> map_option ident (v q) = map_option ident (v p) \<and> fresh q = fresh p
    \<and> filter isCreate (trace q) = filter isCreate (trace p)"
  using assms
proof (induction ops arbitrary: p)
  case Nil
  then show ?case by simp
next
  case (Cons x xs)
  from applyOp_closed [OF Cons.prems, of x] obtain q where
    q: "applyOp x p = Inr q" "state q = playerStateClosed"
      "map_option ident (v q) = map_option ident (v p)" "fresh q = fresh p"
      "filter isCreate (trace q) = filter isCreate (trace p)"
    by blast
  from Cons.IH [OF q(2)] q show ?case
    by auto
qed

theorem closed_is_terminal_witness:
  "state (setError (Some (ReadError ''io'')) (NewPlayer [] [])) = playerStateClosed \<and>
   (\<exists>q. run [OpPlay, OpPause, OpReset, OpClose, OpSetError None, OpPlay]
          (setError (Some (ReadError ''io'')) (NewPlayer [] [])) = Inr q
      \<and> state q = playerStateClosed
      \<and> filter isCreate (trace q) = [])"
proof -
  have h: "state (setError (Some (ReadError ''io'')) (NewPlayer [] [])) = playerStateClosed"
    by (simp add: setError_def NewPlayer_def Let_def)
  have t: "filter isCreate (trace (setError (Some (ReadError ''io'')) (NewPlayer [] []))) = []"
    by (simp add: setError_def NewPlayer_def Let_def)
  from closed_is_terminal [OF h, of "[OpPlay, OpPause, OpReset, OpClose, OpSetError None, OpPlay]"] h t
  show ?thesis by auto
qed

subsection \<open>What the internal close tells the handle\<close>

text \<open>
  Claim C4, as stated (a hard close passes the discard-pending flag to the handle's close),
  fails: Close on a playing player calls \<^verbatim>\<open>close\<close> on the handle with \<open>False\<close>.
\<close>

theorem hard_close_discards_counterexample:
  "Close (Play (NewPlayer [] [])) =
     Inr (None,
       \<lparr>v = None, state = playerStateClosed, volume = 1, err = None,
        src = [], writable = [], fresh = 1,
        trace = [Lock, CreatePlayer 0, SetJSVolume 0 1, GoLoop, CallPlay 0, Signal, Unlock,
                 SetFinalizerNil, Lock, CallClose 0 False, ReleaseOnWritten, Signal, Unlock]\<rparr>)"
  by (simp add: Close_def close_def Play_def NewPlayer_def createPlayer_def emit_def Let_def)

text \<open>
  Claim C4, amended. On a player that is not closed and has a handle, the internal close,
  hard or soft, calls the handle's \<^verbatim>\<open>close\<close> with discard-pending \<open>False\<close>, exactly once,
  clears the handle and returns the recorded error; \<open>remove\<close> only decides the new state
  and whether the completion callback is released. Close does the hard variant after
  clearing the finalizer.
\<close>

theorem close_never_discards:
  assumes "state p \<noteq> playerStateClosed" and "v p = Some h"
  shows "(\<exists>q. close remove p = Inr (err p, q)
          \<and> newEvents p q =
              [Lock, CallClose (ident h) False] @ (if remove then [ReleaseOnWritten] else [])
                @ [Signal, Unlock]
          \<and> v q = None
          \<and> state q = (if remove then playerStateClosed else playerStatePaused))
       \<and> (\<exists>q. Close p = Inr (err p, q)
          \<and> newEvents p q =
              [SetFinalizerNil, Lock, CallClose (ident h) False, ReleaseOnWritten, Signal, Unlock]
          \<and> v q = None \<and> state q = playerStateClosed)"
  using assms by (simp add: Close_def close_def Let_def)

theorem close_never_discards_witness:
  "state (Play (NewPlayer [] [])) \<noteq> playerStateClosed
   \<and> v (Play (NewPlayer [] [])) = Some \<lparr>ident = 0, jsvolume = Some 1\<rparr>
   \<and> (\<exists>q. Close (Play (NewPlayer [] [])) = Inr (None, q)
          \<and> newEvents (Play (NewPlayer [] [])) q =
              [SetFinalizerNil, Lock, CallClose 0 False, ReleaseOnWritten, Signal, Unlock])"
proof -
  have s: "state (Play (NewPlayer [] [])) \<noteq> playerStateClosed"
    by (simp add: Play_def NewPlayer_def createPlayer_def Let_def)
  have h: "v (Play (NewPlayer [] [])) = Some \<lparr>ident = 0, jsvolume = Some 1\<rparr>"
    by (simp add: Play_def NewPlayer_def createPlayer_def Let_def)
  have e: "err (Play (NewPlayer [] [])) = None"
    by (simp add: Play_def NewPlayer_def createPlayer_def Let_def)
  from close_never_discards [OF s h, of True] s h e show ?thesis
    by auto
qed

subsection \<open>Play allocates lazily\<close>

text \<open>
  Claim C5. Play allocates a handle and starts the streaming task exactly once when there
  is no handle and the player is not closed, and not at all otherwise; with a handle
  present the handle is kept, and a second Play right after a first allocates nothing and
  starts no task.
\<close>

theorem Play_starts_at_most_one_task:
  "count_list (newEvents p (Play p)) GoLoop
      = (if v p = None \<and> state p \<noteq> playerStateClosed then 1 else 0)
   \<and> length (filter isCreate (newEvents p (Play p)))
      = (if v p = None \<and> state p \<noteq> playerStateClosed then 1 else 0)
   \<and> (v p \<noteq> None \<longrightarrow> v (Play p) = v p \<and> fresh (Play p) = fresh p)
   \<and> (state p \<noteq> playerStateClosed \<longrightarrow>
        v (Play p) \<noteq> None
        \<and> count_list (newEvents (Play p) (Play (Play p))) GoLoop = 0
        \<and> filter isCreate (newEvents (Play p) (Play (Play p))) = []
        \<and> v (Play (Play p)) = v (Play p))"
  by (cases "v p") (simp_all add: Play_def createPlayer_def Let_def)

theorem Play_starts_at_most_one_task_witness:
  "count_list (newEvents (NewPlayer [] []) (Play (NewPlayer [] []))) GoLoop = 1
   \<and> length (filter isCreate (newEvents (NewPlayer [] []) (Play (NewPlayer [] [])))) = 1
   \<and> state (NewPlayer [] []) \<noteq> playerStateClosed
   \<and> count_list (newEvents (Play (NewPlayer [] [])) (Play (Play (NewPlayer [] [])))) GoLoop = 0
   \<and> filter isCreate (newEvents (Play (NewPlayer [] [])) (Play (Play (NewPlayer [] [])))) = []"
proof -
  have a: "v (NewPlayer [] []) = None" "state (NewPlayer [] []) \<noteq> playerStateClosed"
    by (simp_all add: NewPlayer_def)
  from Play_starts_at_most_one_task [of "NewPlayer [] []"] a show ?thesis
    by simp
qed

subsection \<open>Volume\<close>

text \<open>
  Claim C6. Without a handle SetVolume changes nothing: the player is the same, Volume
  still returns the cached value, and a later Play applies the cached value, not the
  requested one, to the new handle. The cache takes the requested value exactly when a
  handle is present.
\<close>

theorem SetVolume_without_handle_is_noop:
  "(v p = None \<longrightarrow>
      SetVolume x p = p
      \<and> Volume (SetVolume x p) = Inr (volume p)
      \<and> (state p \<noteq> playerStateClosed \<longrightarrow>
           newEvents p (Play (SetVolume x p)) =
             [Lock, CreatePlayer (fresh p), SetJSVolume (fresh p) (volume p), GoLoop,
              CallPlay (fresh p), Signal, Unlock]
           \<and> Volume (Play (SetVolume x p)) = Inr (volume p)))
   \<and> volume (SetVolume x p) = (if v p = None then volume p else x)"
  by (cases "v p") (simp_all add: SetVolume_def Volume_def Play_def createPlayer_def Let_def)

theorem SetVolume_without_handle_is_noop_witness:
  "v (NewPlayer [] []) = None
   \<and> state (NewPlayer [] []) \<noteq> playerStateClosed
   \<and> SetVolume (1/4) (NewPlayer [] []) = NewPlayer [] []
   \<and> Volume (SetVolume (1/4) (NewPlayer [] [])) = Inr 1
   \<and> Volume (Play (SetVolume (1/4) (NewPlayer [] []))) = Inr 1"
proof -
  have a: "v (NewPlayer [] []) = None" "state (NewPlayer [] []) \<noteq> playerStateClosed"
    "volume (NewPlayer [] []) = 1"
    by (simp_all add: NewPlayer_def)
  from SetVolume_without_handle_is_noop [of "NewPlayer [] []" "1/4"] a show ?thesis
    by auto
qed

subsection \<open>The recorded error\<close>

text \<open>
  Claim C7, as stated (the first recorded error wins), fails: a second setError replaces
  the error recorded by the first.
\<close>

theorem first_error_wins_counterexample:
  "err (setError (Some (ReadError ''second'')) (setError (Some (ReadError ''first'')) (NewPlayer [] [])))
     = Some (ReadError ''second'')
   \<and> err (setError (Some (ReadError ''second'')) (setError (Some (ReadError ''first'')) (NewPlayer [] [])))
     \<noteq> err (setError (Some (ReadError ''first'')) (NewPlayer [] []))"
  by (simp add: setError_def NewPlayer_def Let_def)

text \<open>
  Claim C7, amended. setError stores its argument unconditionally and closes the player:
  a later setError replaces the recorded error (last write wins), and Close after it
  returns the error most recently recorded.
\<close>

theorem setError_last_write_wins:
  "err (setError e p) = e
   \<and> state (setError e p) = playerStateClosed
   \<and> err (setError e2 (setError e p)) = e2
   \<and> (\<exists>q. Close (setError e p) = Inr (e, q))"
  by (simp add: setError_def Close_def close_def Let_def split: option.splits)

subsection \<open>Locking\<close>

text \<open>
  Claim C8. SetVolume on a playing player writes the handle's volume and the cached
  volume, and its part of the log (after the \<open>Unlock\<close> that ends Play) holds no \<open>Lock\<close>:
  the shared fields are accessed outside the mutex.
\<close>

theorem SetVolume_takes_no_lock:
  "SetVolume (1/2) (Play (NewPlayer [] [])) =
     \<lparr>v = Some \<lparr>ident = 0, jsvolume = Some (1/2)\<rparr>, state = playerStatePlaying, volume = 1/2,
      err = None, src = [], writable = [], fresh = 1,
      trace = [Lock, CreatePlayer 0, SetJSVolume 0 1, GoLoop, CallPlay 0, Signal, Unlock,
               SetJSVolume 0 (1/2)]\<rparr>"
  by (simp add: SetVolume_def Play_def NewPlayer_def createPlayer_def emit_def Let_def)

subsection \<open>Close without a handle\<close>

text \<open>
  Claim C9. The internal close does not test the handle: on a player that is not closed
  and has no handle (a new player, for one), close and Close still attempt the \<^verbatim>\<open>close\<close>
  call on the undefined value, before the statement that clears the handle; in Go that
  call panics, with the mutex released by the deferred unlock.
\<close>

theorem close_calls_undefined_handle:
  assumes "state p \<noteq> playerStateClosed" and "v p = None"
  shows "close remove p =
           Inl (ValueError ''Value.Call'',
                p\<lparr>trace := trace p @ [Lock, CallUndefined ''close'', Unlock]\<rparr>)
       \<and> Close p =
           Inl (ValueError ''Value.Call'',
                p\<lparr>trace := trace p @ [SetFinalizerNil, Lock, CallUndefined ''close'', Unlock]\<rparr>)"
  using assms by (simp add: Close_def close_def Let_def emit_def)

theorem close_calls_undefined_handle_witness:
  "state (NewPlayer [] []) \<noteq> playerStateClosed \<and> v (NewPlayer [] []) = None
   \<and> Close (NewPlayer [] []) =
       Inl (ValueError ''Value.Call'',
            \<lparr>v = None, state = playerStatePaused, volume = 1, err = None,
             src = [], writable = [], fresh = 0,
             trace = [SetFinalizerNil, Lock, CallUndefined ''close'', Unlock]\<rparr>)"
proof -
  have a: "state (NewPlayer [] []) \<noteq> playerStateClosed" "v (NewPlayer [] []) = None"
    by (simp_all add: NewPlayer_def)
  from close_calls_undefined_handle [OF a, of True] a show ?thesis
    by (simp add: NewPlayer_def)
qed

subsection \<open>The streaming loop, one iteration at a time\<close>

lemma loopFrom_Done: "loopBody dst p = Done q \<Longrightarrow> loopFrom dst p = Done q"
  by (subst loopFrom.simps) simp

lemma loopFrom_Continue: "loopBody dst p = Continue dst' q \<Longrightarrow> loopFrom dst p = loopFrom dst' q"
  by (subst loopFrom.simps) simp

lemma loopBody_read_error:
  assumes "waitUntilUnpaused p = Some (True, p1)"
    and "src p1 = (d, Some (ReadError m)) # rest"
  shows "loopBody dst p = Done (setError (Some (ReadError m)) (p1\<lparr>src := rest\<rparr>))"
  using assms by (simp add: loopBody_def Read_def)

lemma setError_frame:
  "err (setError e p) = e"
  "state (setError e p) = playerStateClosed"
  "src (setError e p) = src p"
  "v (setError e p) = None \<or> state p = playerStateClosed"
  "\<exists>es. trace (setError e p) = trace p @ es \<and> (\<forall>x\<in>set es. \<not> isWrite x)"
  by (auto simp: setError_def Let_def split: option.splits)

lemma run_closed_err:
  assumes "state p = playerStateClosed" and "\<forall>x\<in>set ops. \<not> isSetError x"
  shows "\<exists>q. run ops p = Inr q \<and> state q = playerStateClosed \<and> err q = err p"
  using assms
proof (induction ops arbitrary: p)
  case Nil
  then show ?case by simp
next
  case (Cons x xs)
  from Cons.prems have nx: "\<not> isSetError x" and nxs: "\<forall>x\<in>set xs. \<not> isSetError x"
    by simp_all
  from applyOp_closed [OF Cons.prems(1), of x] nx obtain q where
    q: "applyOp x p = Inr q" "state q = playerStateClosed" "err q = err p"
    by blast
  from Cons.IH [OF q(2) nxs] q show ?case
    by auto
qed

lemma Close_closed: "state p = playerStateClosed \<Longrightarrow> \<exists>q. Close p = Inr (err p, q)"
  by (simp add: Close_def close_def Let_def)

lemma CopyBytesToJS_take: "length s \<le> length dst \<Longrightarrow> take (length s) (CopyBytesToJS dst s) = s"
  by (simp add: CopyBytesToJS_def min_def)

lemma length_CopyBytesToJS [simp]: "length (CopyBytesToJS dst s) = length dst"
  by (simp add: CopyBytesToJS_def min_def)

lemma write_step:
  assumes "v p = Some h" and "state p = playerStatePlaying" and "length d \<le> length dst"
  shows "\<exists>dst' q es. (if 0 < length d then write' dst d p else (dst, p)) = (dst', q)
     \<and> length dst' = length dst
     \<and> v q = v p \<and> state q = state p \<and> err q = err p \<and> src q = src p \<and> fresh q = fresh p
     \<and> volume q = volume p \<and> writable q = writable p
     \<and> trace q = trace p @ es \<and> writtenTo (ident h) es = d
     \<and> (\<forall>h'. h' \<noteq> ident h \<longrightarrow> writtenTo h' es = [])"
proof (cases "0 < length d")
  case False
  then show ?thesis by simp
next
  case True
  let ?dst = "CopyBytesToJS dst d"
  let ?es = "[Lock, CallWrite (ident h) ?dst (length d), Unlock]"
  let ?q = "emit Unlock (emit (CallWrite (ident h) ?dst (length d)) (emit Lock p))"
  from assms True have w: "(if 0 < length d then write' dst d p else (dst, p)) = (?dst, ?q)"
    by (simp add: write'_def Let_def)
  have t: "trace ?q = trace p @ ?es"
    by simp
  from assms(3) have b: "writtenTo (ident h) ?es = d"
    by (simp add: CopyBytesToJS_take)
  have o: "\<forall>h'. h' \<noteq> ident h \<longrightarrow> writtenTo h' ?es = []"
    by simp
  from w t b o show ?thesis
    by (intro exI [of _ ?dst] exI [of _ ?q] exI [of _ ?es]) simp
qed

lemma close_soft:
  assumes "v p = Some h" and "state p = playerStatePlaying"
  shows "\<exists>q es. close False p = Inr (err p, q)
     \<and> v q = None \<and> state q = playerStatePaused \<and> err q = err p \<and> src q = src p
     \<and> fresh q = fresh p \<and> volume q = volume p \<and> writable q = writable p
     \<and> trace q = trace p @ es \<and> (\<forall>e\<in>set es. \<not> isWrite e)"
  using assms by (simp add: close_def Let_def)

lemma loopBody_chunk:
  assumes vp: "v p = Some h" and sp: "state p = playerStatePlaying"
    and wr: "True \<in> set (writable p)"
    and sr: "src p = (d, e) # rest" and ee: "e = None \<or> e = Some EOF"
    and ld: "length d \<le> bufsize" and ldst: "length dst = bufsize"
  shows "\<exists>q dst' es. loopBody dst p = (if e = None then Continue dst' q else Done q)
     \<and> length dst' = bufsize \<and> src q = rest
     \<and> v q = (if e = None then Some h else None)
     \<and> state q = (if e = None then playerStatePlaying else playerStatePaused)
     \<and> err q = err p \<and> fresh q = fresh p \<and> volume q = volume p
     \<and> Suc (count_list (writable q) True) = count_list (writable p) True
     \<and> trace q = trace p @ es \<and> writtenTo (ident h) es = d
     \<and> (\<forall>h'. h' \<noteq> ident h \<longrightarrow> writtenTo h' es = [])"
proof -
  from waitUntilUnpaused_playing [OF vp sp wr] obtain p1 where
    w: "waitUntilUnpaused p = Some (True, p1)"
    and c1: "Suc (count_list (writable p1) True) = count_list (writable p) True"
    by blast
  note f1 = waitUntilUnpaused_frame [OF w]
  from f1(8) obtain es1 where t1: "trace p1 = trace p @ es1" and n1: "\<forall>e\<in>set es1. \<not> isWrite e"
    by blast
  let ?p2 = "p1\<lparr>src := rest\<rparr>"
  from sr f1(5) have r: "Read p1 = ((d, e), ?p2)"
    by (simp add: Read_def)
  from vp sp f1 have v2: "v ?p2 = Some h" and s2: "state ?p2 = playerStatePlaying"
    by simp_all
  from ld ldst have ld': "length d \<le> length dst"
    by simp
  from write_step [OF v2 s2 ld'] obtain dst' p3 es2 where
    w3: "(if 0 < length d then write' dst d ?p2 else (dst, ?p2)) = (dst', p3)"
    and l3: "length dst' = length dst"
    and f3: "v p3 = v ?p2" "state p3 = state ?p2" "err p3 = err ?p2" "src p3 = src ?p2"
      "fresh p3 = fresh ?p2" "volume p3 = volume ?p2" "writable p3 = writable ?p2"
    and t3: "trace p3 = trace ?p2 @ es2" and b3: "writtenTo (ident h) es2 = d"
    and o3: "\<forall>h'. h' \<noteq> ident h \<longrightarrow> writtenTo h' es2 = []"
    by blast
  have nb: "\<not> (0 < length d \<and> bufsize < length d)"
    using ld by simp
  have z1: "writtenTo h' es1 = []" for h'
    using n1 by (rule writtenTo_no_write)
  show ?thesis
  proof (cases "e = None")
    case True
    from w r w3 nb True have "loopBody dst p = Continue dst' p3"
      by (simp add: loopBody_def)
    moreover from t1 t3 have "trace p3 = trace p @ (es1 @ es2)"
      by simp
    moreover from b3 z1 have "writtenTo (ident h) (es1 @ es2) = d"
      by simp
    moreover from o3 z1 have "\<forall>h'. h' \<noteq> ident h \<longrightarrow> writtenTo h' (es1 @ es2) = []"
      by simp
    ultimately show ?thesis
      using True l3 ldst f3 f1 c1 vp sp by (intro exI [of _ p3] exI [of _ dst'] exI [of _ "es1 @ es2"]) simp
  next
    case False
    with ee have e: "e = Some EOF"
      by simp
    from f3 v2 s2 have v3: "v p3 = Some h" and s3: "state p3 = playerStatePlaying"
      by simp_all
    from close_soft [OF v3 s3] obtain q es4 where
      c: "close False p3 = Inr (err p3, q)"
      and f4: "v q = None" "state q = playerStatePaused" "err q = err p3" "src q = src p3"
        "fresh q = fresh p3" "volume q = volume p3" "writable q = writable p3"
      and t4: "trace q = trace p3 @ es4" and n4: "\<forall>e\<in>set es4. \<not> isWrite e"
      by blast
    have z4: "writtenTo h' es4 = []" for h'
      using n4 by (rule writtenTo_no_write)
    from w r w3 nb e c have "loopBody dst p = Done q"
      by (simp add: loopBody_def)
    moreover from t1 t3 t4 have "trace q = trace p @ (es1 @ es2 @ es4)"
      by simp
    moreover from b3 z1 z4 have "writtenTo (ident h) (es1 @ es2 @ es4) = d"
      by simp
    moreover from o3 z1 z4 have "\<forall>h'. h' \<noteq> ident h \<longrightarrow> writtenTo h' (es1 @ es2 @ es4) = []"
      by simp
    ultimately show ?thesis
      using e l3 ldst f3 f4 f1 c1 by (intro exI [of _ q] exI [of _ dst'] exI [of _ "es1 @ es2 @ es4"]) simp
  qed
qed

lemma count_True_pos: "0 < count_list ws True \<Longrightarrow> True \<in> set ws"
  by (induction ws) (auto split: if_splits)

lemma loopFrom_streams:
  assumes "v p = Some h" and "state p = playerStatePlaying"
    and "src p = map (\<lambda>c. (c, None)) cs @ (c, Some EOF) # rest"
    and "\<forall>x\<in>set (c # cs). length x \<le> bufsize"
    and "length dst = bufsize"
    and "length cs < count_list (writable p) True"
  shows "\<exists>q es. loopFrom dst p = Done q
     \<and> state q = playerStatePaused \<and> v q = None \<and> src q = rest
     \<and> err q = err p \<and> fresh q = fresh p \<and> volume q = volume p
     \<and> trace q = trace p @ es \<and> writtenTo (ident h) es = concat cs @ c
     \<and> (\<forall>h'. h' \<noteq> ident h \<longrightarrow> writtenTo h' es = [])"
  using assms
proof (induction cs arbitrary: p dst)
  case Nil
  from Nil.prems(6) have wr: "True \<in> set (writable p)"
    by (intro count_True_pos) simp
  from Nil.prems(3) have sr: "src p = (c, Some EOF) # rest"
    by simp
  from Nil.prems(4) have lc: "length c \<le> bufsize"
    by simp
  from loopBody_chunk [OF Nil.prems(1,2) wr sr _ lc Nil.prems(5)]
  obtain q dst' es where b: "loopBody dst p = Done q"
    and f: "src q = rest" "v q = None" "state q = playerStatePaused" "err q = err p"
      "fresh q = fresh p" "volume q = volume p"
    and t: "trace q = trace p @ es" "writtenTo (ident h) es = c"
      "\<forall>h'. h' \<noteq> ident h \<longrightarrow> writtenTo h' es = []"
    by auto
  from loopFrom_Done [OF b] f t show ?case
    by auto
next
  case (Cons c0 cs)
  from Cons.prems(6) have wr: "True \<in> set (writable p)"
    by (intro count_True_pos) simp
  from Cons.prems(3) have sr: "src p = (c0, None) # (map (\<lambda>c. (c, None)) cs @ (c, Some EOF) # rest)"
    by simp
  from Cons.prems(4) have lc: "length c0 \<le> bufsize" and ls: "\<forall>x\<in>set (c # cs). length x \<le> bufsize"
    by simp_all
  from loopBody_chunk [OF Cons.prems(1,2) wr sr _ lc Cons.prems(5)]
  obtain p' dst' es where b: "loopBody dst p = Continue dst' p'"
    and l: "length dst' = bufsize"
    and f: "src p' = map (\<lambda>c. (c, None)) cs @ (c, Some EOF) # rest" "v p' = Some h"
      "state p' = playerStatePlaying" "err p' = err p" "fresh p' = fresh p" "volume p' = volume p"
    and c: "Suc (count_list (writable p') True) = count_list (writable p) True"
    and t: "trace p' = trace p @ es" "writtenTo (ident h) es = c0"
      "\<forall>h'. h' \<noteq> ident h \<longrightarrow> writtenTo h' es = []"
    by auto
  from c Cons.prems(6) have c': "length cs < count_list (writable p') True"
    by simp
  from Cons.IH [OF f(2,3,1) ls l c'] obtain q es' where
    d: "loopFrom dst' p' = Done q"
    and g: "state q = playerStatePaused" "v q = None" "src q = rest" "err q = err p'"
      "fresh q = fresh p'" "volume q = volume p'"
    and u: "trace q = trace p' @ es'" "writtenTo (ident h) es' = concat cs @ c"
      "\<forall>h'. h' \<noteq> ident h \<longrightarrow> writtenTo h' es' = []"
    by blast
  from loopFrom_Continue [OF b] d have "loopFrom dst p = Done q"
    by simp
  moreover from t u have "trace q = trace p @ (es @ es')"
    "writtenTo (ident h) (es @ es') = concat (c0 # cs) @ c"
    "\<forall>h'. h' \<noteq> ident h \<longrightarrow> writtenTo h' (es @ es') = []"
    by simp_all
  ultimately show ?case
    using g f by (intro exI [of _ q] exI [of _ "es @ es'"]) simp
qed

lemma Play_new:
  assumes "v p = None" and "state p \<noteq> playerStateClosed"
  shows "v (Play p) = Some \<lparr>ident = fresh p, jsvolume = Some (volume p)\<rparr>"
    and "state (Play p) = playerStatePlaying"
    and "src (Play p) = src p" and "writable (Play p) = writable p" and "err (Play p) = err p"
    and "trace (Play p) = trace p @ [Lock, CreatePlayer (fresh p), SetJSVolume (fresh p) (volume p),
           GoLoop, CallPlay (fresh p), Signal, Unlock]"
  using assms by (simp_all add: Play_def createPlayer_def Let_def)

subsection \<open>A stream is written in order\<close>

text \<open>
  The loop adds no \<open>GoLoop\<close> event: the number of streaming tasks ever started on a player
  is changed by Play alone.
\<close>

lemma tasks_waitLoop:
  "waitLoop ws p = Some q \<Longrightarrow> count_list (trace q) GoLoop = count_list (trace p) GoLoop"
proof (induction ws p arbitrary: q rule: waitLoop.induct)
  case (1 ws p)
  from "1.prems" show ?case
    by (subst (asm) waitLoop.simps)
      (auto split: option.splits if_splits list.splits dest!: "1.IH")
qed

lemma tasks_waitUntilUnpaused:
  "waitUntilUnpaused p = Some (ok, q) \<Longrightarrow> count_list (trace q) GoLoop = count_list (trace p) GoLoop"
  by (auto simp: waitUntilUnpaused_def split: option.splits dest!: tasks_waitLoop)

lemma tasks_setError: "count_list (trace (setError e p)) GoLoop = count_list (trace p) GoLoop"
  by (simp add: setError_def Let_def split: option.splits)

lemma tasks_write:
  "write' dst s p = (dst', q) \<Longrightarrow> count_list (trace q) GoLoop = count_list (trace p) GoLoop"
  by (auto simp: write'_def Let_def split: if_splits option.splits)

lemma tasks_close:
  "close r p = Inr (e, q) \<Longrightarrow> count_list (trace q) GoLoop = count_list (trace p) GoLoop"
  by (auto simp: close_def Let_def split: if_splits option.splits)

lemma tasks_loopBody:
  assumes "loopBody dst p = Continue dst' q \<or> loopBody dst p = Done q"
  shows "count_list (trace q) GoLoop = count_list (trace p) GoLoop"
proof -
  from assms obtain ok p1 where w: "waitUntilUnpaused p = Some (ok, p1)"
    by (auto simp: loopBody_def split: option.splits)
  note t1 = tasks_waitUntilUnpaused [OF w]
  show ?thesis
  proof (cases ok)
    case False
    with assms w t1 show ?thesis
      by (simp add: loopBody_def)
  next
    case True
    obtain d e p2 where r: "Read p1 = ((d, e), p2)"
      by (metis prod.exhaust)
    then have t2: "trace p2 = trace p1"
      by (auto simp: Read_def split: list.splits)
    show ?thesis
    proof (cases "e \<noteq> None \<and> e \<noteq> Some EOF")
      case True
      with assms w \<open>ok\<close> r have "q = setError e p2"
        by (simp add: loopBody_def)
      with t1 t2 show ?thesis
        by (simp add: tasks_setError)
    next
      case False
      obtain dst3 p3 where w3: "(if 0 < length d then write' dst d p2 else (dst, p2)) = (dst3, p3)"
        by (metis prod.exhaust)
      then have t3: "count_list (trace p3) GoLoop = count_list (trace p2) GoLoop"
        by (auto split: if_splits dest: tasks_write)
      from assms w \<open>ok\<close> r False w3
      have "(e = Some EOF \<and> (\<exists>x. close False p3 = Inr (x, q))) \<or> (e \<noteq> Some EOF \<and> q = p3)"
        by (auto simp: loopBody_def split: if_splits sum.splits prod.splits)
      with t1 t2 t3 show ?thesis
        by (auto dest: tasks_close)
    qed
  qed
qed

lemma tasks_loopFrom:
  "loopFrom dst p = Done q \<Longrightarrow> count_list (trace q) GoLoop = count_list (trace p) GoLoop"
proof (induction dst p rule: loopFrom.induct)
  case (1 dst p)
  show ?case
  proof (cases "loopBody dst p")
    case (Continue dst' p')
    with "1.prems" have "loopFrom dst' p' = Done q"
      by (subst (asm) loopFrom.simps) simp
    with "1.IH" [OF Continue] have "count_list (trace q) GoLoop = count_list (trace p') GoLoop"
      by simp
    with tasks_loopBody [of dst p dst' p'] Continue show ?thesis
      by simp
  next
    case (Done q')
    with "1.prems" have "q' = q"
      by (subst (asm) loopFrom.simps) simp
    with tasks_loopBody [of dst p dst q] Done show ?thesis
      by simp
  next
    case (Panicked x p')
    with "1.prems" show ?thesis
      by (subst (asm) loopFrom.simps) simp
  next
    case Blocked
    with "1.prems" show ?thesis
      by (subst (asm) loopFrom.simps) simp
  qed
qed

text \<open>
  The run of the task that Play starts, with no other task of the player and no transport
  operation in between.
\<close>

lemma single_task_run:
  assumes "v p = None" and "state p \<noteq> playerStateClosed"
    and "src p = map (\<lambda>c. (c, None)) cs @ (c, Some EOF) # rest"
    and "\<forall>x\<in>set (c # cs). length x \<le> bufsize"
    and "length cs < count_list (writable p) True"
  shows "\<exists>q. loop (Play p) = Done q
     \<and> state q = playerStatePaused \<and> v q = None
     \<and> writtenTo (fresh p) (newEvents p q) = concat cs @ c
     \<and> (\<forall>h'. h' \<noteq> fresh p \<longrightarrow> writtenTo h' (newEvents p q) = [])
     \<and> src q = rest \<and> err q = err p
     \<and> count_list (trace q) GoLoop = Suc (count_list (trace p) GoLoop)"
proof -
  note P = Play_new [OF assms(1,2)]
  let ?h = "\<lparr>ident = fresh p, jsvolume = Some (volume p)\<rparr>"
  let ?es0 = "[Lock, CreatePlayer (fresh p), SetJSVolume (fresh p) (volume p),
           GoLoop, CallPlay (fresh p), Signal, Unlock]"
  have s: "src (Play p) = map (\<lambda>c. (c, None)) cs @ (c, Some EOF) # rest"
    using P(3) assms(3) by simp
  have w: "length cs < count_list (writable (Play p)) True"
    using P(4) assms(5) by simp
  have l: "length (replicate bufsize (0::byte)) = bufsize"
    by simp
  from loopFrom_streams [OF P(1,2) s assms(4) l w] obtain q es where
    d: "loopFrom (replicate bufsize 0) (Play p) = Done q"
    and g: "state q = playerStatePaused" "v q = None" "src q = rest" "err q = err (Play p)"
    and u: "trace q = trace (Play p) @ es" "writtenTo (ident ?h) es = concat cs @ c"
      "\<forall>h'. h' \<noteq> ident ?h \<longrightarrow> writtenTo h' es = []"
    by blast
  from u(1) P(6) have "trace q = trace p @ (?es0 @ es)"
    by simp
  then have n: "newEvents p q = ?es0 @ es"
    by (rule newEvents_append)
  from u(2,3) have "writtenTo (fresh p) (?es0 @ es) = concat cs @ c"
    "\<forall>h'. h' \<noteq> fresh p \<longrightarrow> writtenTo h' (?es0 @ es) = []"
    by simp_all
  moreover from tasks_loopFrom [OF d] P(6)
  have "count_list (trace q) GoLoop = Suc (count_list (trace p) GoLoop)"
    by simp
  ultimately show ?thesis
    using d g n P(5) by (simp add: loop_def del: writtenTo_simps)
qed

text \<open>
  Claim C2. Take a new player (\<^verbatim>\<open>Context.NewPlayer\<close>: no streaming task has been started
  on it) whose reader answers the chunks \<open>cs\<close> without error and then a last chunk \<open>c\<close>
  with \<^verbatim>\<open>io.EOF\<close> (every chunk fits the 4096-byte buffer, as \<^verbatim>\<open>io.Reader\<close> promises),
  and whose sink reports writable at least once per read. Then Play followed by the loop
  returns; the bytes handed to the handle Play allocated are exactly \<open>concat cs @ c\<close>, in
  order; nothing is written to any other handle; the state is paused, the handle is
  absent, and the reader is left after the end-of-stream answer. The whole log holds one
  \<open>GoLoop\<close>: the task that ran is the only one the player ever had.
\<close>

theorem stream_is_written_in_order:
  assumes "\<forall>x\<in>set (c # cs). length x \<le> bufsize"
    and "length cs < count_list ws True"
  shows "\<exists>q. loop (Play (NewPlayer (map (\<lambda>c. (c, None)) cs @ (c, Some EOF) # rest) ws)) = Done q
     \<and> state q = playerStatePaused \<and> v q = None
     \<and> writtenTo 0 (trace q) = concat cs @ c
     \<and> (\<forall>h'. h' \<noteq> 0 \<longrightarrow> writtenTo h' (trace q) = [])
     \<and> src q = rest \<and> err q = None
     \<and> count_list (trace q) GoLoop = 1"
proof -
  let ?p = "NewPlayer (map (\<lambda>c. (c, None)) cs @ (c, Some EOF) # rest) ws"
  have a: "v ?p = None" "state ?p \<noteq> playerStateClosed"
    and s: "src ?p = map (\<lambda>c. (c, None)) cs @ (c, Some EOF) # rest"
    and f: "fresh ?p = 0" "err ?p = None" "trace ?p = []"
    by (simp_all add: NewPlayer_def)
  from assms(2) have w: "length cs < count_list (writable ?p) True"
    by (simp add: NewPlayer_def)
  from f(3) have n: "newEvents ?p q = trace q" for q
    by (simp add: newEvents_def)
  from single_task_run [OF a s assms(1) w] f n show ?thesis
    by simp
qed

theorem stream_is_written_in_order_witness:
  "length [3 :: byte] \<le> bufsize \<and> length [1, 2 :: byte] \<le> bufsize
   \<and> length [[1, 2 :: byte]] < count_list [False, True, True] True
   \<and> (\<exists>q. loop (Play (NewPlayer [([1, 2], None), ([3], Some EOF)] [False, True, True])) = Done q
        \<and> state q = playerStatePaused \<and> v q = None
        \<and> writtenTo 0 (trace q) = [1, 2, 3]
        \<and> src q = []
        \<and> count_list (trace q) GoLoop = 1)"
proof -
  have b: "\<forall>x\<in>set [[3], [1, 2 :: byte]]. length x \<le> bufsize"
    by (simp add: bufsize_def)
  have w: "length [[1, 2 :: byte]] < count_list [False, True, True] True"
    by simp
  from stream_is_written_in_order [OF b w, of "[]"] b w show ?thesis
    by auto
qed

subsection \<open>A read error is fatal\<close>

text \<open>
  Claim C3. When the loop gets past the wait and the read returns an error other than
  \<^verbatim>\<open>io.EOF\<close>, the loop returns at once: the error is recorded, the state is closed, the
  handle is cleared, and exactly one answer of the reader was consumed (no retry). After
  that every sequence of Play, Pause, Reset, SetVolume and Close runs without a panic, and
  a Close after it returns the recorded error.
\<close>

theorem read_error_is_sticky:
  assumes "waitUntilUnpaused p = Some (True, p1)"
    and "src p1 = (d, Some (ReadError m)) # rest"
  shows "\<exists>q. loopFrom dst p = Done q
     \<and> err q = Some (ReadError m) \<and> state q = playerStateClosed \<and> v q = None
     \<and> src q = rest
     \<and> (\<forall>ops. (\<forall>x\<in>set ops. \<not> isSetError x) \<longrightarrow>
           (\<exists>q' q''. run ops q = Inr q' \<and> Close q' = Inr (Some (ReadError m), q'')))"
proof -
  let ?q = "setError (Some (ReadError m)) (p1\<lparr>src := rest\<rparr>)"
  have l: "loopFrom dst p = Done ?q"
    by (rule loopFrom_Done) (rule loopBody_read_error [OF assms])
  have e: "err ?q = Some (ReadError m)" and c: "state ?q = playerStateClosed"
    and s: "src ?q = rest"
    by (simp_all add: setError_frame)
  from waitUntilUnpaused_frame(1,3) [OF assms(1)] have "state p1 = playerStatePlaying"
    by simp
  with setError_frame(4) [of "Some (ReadError m)" "p1\<lparr>src := rest\<rparr>"] have n: "v ?q = None"
    by simp
  have "\<exists>q' q''. run ops ?q = Inr q' \<and> Close q' = Inr (Some (ReadError m), q'')"
    if n: "\<forall>x\<in>set ops. \<not> isSetError x" for ops
  proof -
    from run_closed_err [OF c n] e obtain q' where
      q': "run ops ?q = Inr q'" "state q' = playerStateClosed" "err q' = Some (ReadError m)"
      by auto
    from Close_closed [OF q'(2)] q' show ?thesis
      by auto
  qed
  with l e c n s show ?thesis
    by blast
qed

theorem read_error_is_sticky_witness:
  "waitUntilUnpaused (Play (NewPlayer [([1, 2], Some (ReadError ''io''))] [True])) =
     Some (True,
       \<lparr>v = Some \<lparr>ident = 0, jsvolume = Some 1\<rparr>, state = playerStatePlaying, volume = 1,
        err = None, src = [([1, 2], Some (ReadError ''io''))], writable = [], fresh = 1,
        trace = [Lock, CreatePlayer 0, SetJSVolume 0 1, GoLoop, CallPlay 0, Signal, Unlock,
                 Lock, CallIsWritable 0 True, Unlock]\<rparr>)
   \<and> \<not> isSetError OpPlay \<and> \<not> isSetError OpPause \<and> \<not> isSetError OpReset
   \<and> \<not> isSetError (OpSetVolume (1/2)) \<and> \<not> isSetError OpClose
   \<and> (\<exists>q. loop (Play (NewPlayer [([1, 2], Some (ReadError ''io''))] [True])) = Done q
        \<and> err q = Some (ReadError ''io'') \<and> state q = playerStateClosed \<and> v q = None
        \<and> src q = []
        \<and> (\<exists>q' q''. run [OpPlay, OpPause, OpReset, OpSetVolume (1/2), OpClose] q = Inr q'
              \<and> Close q' = Inr (Some (ReadError ''io''), q'')))"
proof -
  let ?P = "Play (NewPlayer [([1, 2], Some (ReadError ''io''))] [True])"
  let ?P1 = "\<lparr>v = Some \<lparr>ident = 0, jsvolume = Some 1\<rparr>, state = playerStatePlaying, volume = 1,
        err = None, src = [([1, 2 :: byte], Some (ReadError ''io''))], writable = [], fresh = 1,
        trace = [Lock, CreatePlayer 0, SetJSVolume 0 1, GoLoop, CallPlay 0, Signal, Unlock,
                 Lock, CallIsWritable 0 True, Unlock]\<rparr>"
  have w: "waitUntilUnpaused ?P = Some (True, ?P1)"
    by (simp add: waitUntilUnpaused_def waitLoop.simps Play_def NewPlayer_def createPlayer_def
        emit_def Let_def)
  have s: "src ?P1 = ([1, 2], Some (ReadError ''io'')) # []"
    by simp
  have n: "\<forall>x\<in>set [OpPlay, OpPause, OpReset, OpSetVolume (1/2), OpClose]. \<not> isSetError x"
    by simp
  from read_error_is_sticky [OF w s, of "replicate bufsize 0"] obtain q where
    q: "loopFrom (replicate bufsize 0) ?P = Done q" "err q = Some (ReadError ''io'')"
      "state q = playerStateClosed" "v q = None" "src q = []"
    and a: "\<forall>ops. (\<forall>x\<in>set ops. \<not> isSetError x) \<longrightarrow>
           (\<exists>q' q''. run ops q = Inr q' \<and> Close q' = Inr (Some (ReadError ''io''), q''))"
    by blast
  from a n have "\<exists>q' q''. run [OpPlay, OpPause, OpReset, OpSetVolume (1/2), OpClose] q = Inr q'
      \<and> Close q' = Inr (Some (ReadError ''io''), q'')"
    by blast
  with q w show ?thesis
    unfolding loop_def by auto
qed

text \<open>
  Claim C10. When the read returns \<open>n > 0\<close> bytes together with an error other than
  \<^verbatim>\<open>io.EOF\<close>, the loop returns through setError: its part of the log holds no
  \<^verbatim>\<open>write\<close> call, so none of the bytes reaches any handle.
\<close>

theorem data_with_read_error_is_dropped:
  assumes "waitUntilUnpaused p = Some (True, p1)"
    and "src p1 = (d, Some (ReadError m)) # rest"
    and "0 < length d"
  shows "\<exists>q. loopFrom dst p = Done q
     \<and> filter isWrite (newEvents p q) = []
     \<and> (\<forall>h. writtenTo h (newEvents p q) = [])
     \<and> state q = playerStateClosed \<and> src q = rest"
proof -
  let ?q = "setError (Some (ReadError m)) (p1\<lparr>src := rest\<rparr>)"
  have l: "loopFrom dst p = Done ?q"
    by (rule loopFrom_Done) (rule loopBody_read_error [OF assms(1,2)])
  from waitUntilUnpaused_frame(8) [OF assms(1)] obtain es where
    es: "trace p1 = trace p @ es" "\<forall>e\<in>set es. \<not> isWrite e"
    by blast
  from setError_frame(5) [of "Some (ReadError m)" "p1\<lparr>src := rest\<rparr>"] obtain es' where
    es': "trace ?q = trace p1 @ es'" "\<forall>e\<in>set es'. \<not> isWrite e"
    by auto
  from es es' have t: "trace ?q = trace p @ (es @ es')" and n: "\<forall>e\<in>set (es @ es'). \<not> isWrite e"
    by auto
  from t have ne: "newEvents p ?q = es @ es'"
    by (rule newEvents_append)
  from n have "filter isWrite (es @ es') = []"
    by (simp add: filter_empty_conv)
  moreover from n have "writtenTo h (es @ es') = []" for h
    by (rule writtenTo_no_write)
  ultimately show ?thesis
    using l ne by (simp add: setError_frame del: writtenTo_simps)
qed

theorem data_with_read_error_is_dropped_witness:
  "waitUntilUnpaused (Play (NewPlayer [([7, 8, 9], Some (ReadError ''disk''))] [False, True])) =
     Some (True,
       \<lparr>v = Some \<lparr>ident = 0, jsvolume = Some 1\<rparr>, state = playerStatePlaying, volume = 1,
        err = None, src = [([7, 8, 9], Some (ReadError ''disk''))], writable = [], fresh = 1,
        trace = [Lock, CreatePlayer 0, SetJSVolume 0 1, GoLoop, CallPlay 0, Signal, Unlock,
                 Lock, CallIsWritable 0 False, Wait, CallIsWritable 0 True, Unlock]\<rparr>)
   \<and> 0 < length [7, 8, 9 :: byte]
   \<and> (\<exists>q. loop (Play (NewPlayer [([7, 8, 9], Some (ReadError ''disk''))] [False, True])) = Done q
        \<and> filter isWrite
            (newEvents (Play (NewPlayer [([7, 8, 9], Some (ReadError ''disk''))] [False, True])) q) = []
        \<and> state q = playerStateClosed \<and> src q = [])"
proof -
  let ?P = "Play (NewPlayer [([7, 8, 9], Some (ReadError ''disk''))] [False, True])"
  let ?P1 = "\<lparr>v = Some \<lparr>ident = 0, jsvolume = Some 1\<rparr>, state = playerStatePlaying, volume = 1,
        err = None, src = [([7, 8, 9 :: byte], Some (ReadError ''disk''))], writable = [], fresh = 1,
        trace = [Lock, CreatePlayer 0, SetJSVolume 0 1, GoLoop, CallPlay 0, Signal, Unlock,
                 Lock, CallIsWritable 0 False, Wait, CallIsWritable 0 True, Unlock]\<rparr>"
  have w: "waitUntilUnpaused ?P = Some (True, ?P1)"
    by (simp add: waitUntilUnpaused_def waitLoop.simps Play_def NewPlayer_def createPlayer_def
        emit_def Let_def)
  have s: "src ?P1 = ([7, 8, 9], Some (ReadError ''disk'')) # []"
    by simp
  have d: "0 < length [7, 8, 9 :: byte]"
    by simp
  from data_with_read_error_is_dropped [OF w s d, of "replicate bufsize 0"] w d show ?thesis
    unfolding loop_def by blast
qed

end
